theory Spec2Isabelle
  imports Complex_Main "HOL-Library.Word"
begin

section \<open>Karaoke game: scoring tick (KaraokeScreen)\<close>

text \<open>
  JavaScript numbers are modelled as follows: the score and the silence counter, which
  only ever hold small integers, are \<^typ>\<open>int\<close> and \<^typ>\<open>nat\<close>; times, pitches
  and loudness are \<^typ>\<open>real\<close>. The pitch estimator, whose result depends on how
  its sums are rounded, is modelled with the rounding of double arithmetic.
\<close>

text \<open>
  The state the tick reads and writes: the \<open>currentTime\<close> and \<open>score\<close> states, the
  \<open>noSingingCounter\<close> ref, the \<open>tomatoes\<close> state (each tomato is its numeric id) and, in
  \<open>reportedScore\<close>, the argument of the \<open>onSongEnd\<close> call once it has been made.
\<close>

record game_state =
  currentTime :: real
  score :: int
  noSingingCounter :: nat
  tomatoes :: "real list"
  reportedScore :: "int option"

text \<open>
  What one frame takes from outside the component: the player's time
  (\<open>player?.getCurrentTime() ?? 0\<close>), the three values of \<open>usePitchDetection\<close> captured by
  the closure, and the id \<open>Date.now() + Math.random()\<close> a tomato thrown on this frame gets.
\<close>

record tick_env =
  newTime :: real
  isMicReady :: bool
  micVolume :: real
  userPitch :: real
  tomatoId :: real

definition targetPitchAt :: "real \<Rightarrow> real" where
  "targetPitchAt t = 50 + sin (t * 1.5) * 30"

text \<open>
  \<open>gameTick\<close> returns the new state and whether it requested another animation frame.
\<close>

definition gameTick :: "real \<Rightarrow> tick_env \<Rightarrow> game_state \<Rightarrow> game_state \<times> bool" where
  "gameTick songDuration env s =
     (let s1 = s\<lparr>currentTime := newTime env\<rparr> in
      if newTime env \<ge> songDuration
      then (s1\<lparr>reportedScore := Some (score s1)\<rparr>, False)
      else
        let targetPitch = targetPitchAt (newTime env);
            s2 =
              (if isMicReady env then
                 let s3 =
                   (if micVolume env > 0.05 then
                      let s4 = s1\<lparr>noSingingCounter := 0\<rparr>;
                          pitchDifference = \<bar>userPitch env - targetPitch\<bar>
                      in if pitchDifference < 10 then s4\<lparr>score := score s4 + 5\<rparr>
                         else if pitchDifference < 20 then s4\<lparr>score := score s4 + 2\<rparr>
                         else s4
                    else s1\<lparr>noSingingCounter := noSingingCounter s1 + 1\<rparr>)
                 in if noSingingCounter s3 > 120
                    then s3\<lparr>tomatoes := tomatoes s3 @ [tomatoId env], noSingingCounter := 0\<rparr>
                    else s3
               else s1)
        in (s2, True))"

text \<open>
  The animation-frame loop: \<open>gameTick\<close> re-schedules itself unless the song has ended.
  Each element of the list is the environment one frame sees.
\<close>

fun gameLoop :: "real \<Rightarrow> tick_env list \<Rightarrow> game_state \<Rightarrow> game_state" where
  "gameLoop songDuration [] s = s"
| "gameLoop songDuration (env # envs) s =
     (case gameTick songDuration env s of
        (s', continue) \<Rightarrow> if continue then gameLoop songDuration envs s' else s')"

text \<open>
  A silent frame: the song has not ended, the microphone is ready and the loudness does not
  exceed the singing threshold.
\<close>

definition silentFrame :: "real \<Rightarrow> tick_env \<Rightarrow> bool" where
  "silentFrame songDuration env \<longleftrightarrow>
     newTime env < songDuration \<and> isMicReady env \<and> micVolume env \<le> 0.05"

text \<open>The component's initial state: every \<open>useState\<close>/\<open>useRef\<close> initial value.\<close>

definition initialState :: game_state where
  "initialState =
     \<lparr>currentTime = 0, score = 0, noSingingCounter = 0, tomatoes = [], reportedScore = None\<rparr>"

text \<open>Environments used in the concrete scenarios below.\<close>

definition frameEnv :: "real \<Rightarrow> real \<Rightarrow> tick_env" where
  "frameEnv volume pitch =
     \<lparr>newTime = 0, isMicReady = True, micVolume = volume, userPitch = pitch, tomatoId = 1\<rparr>"

definition micOffEnv :: tick_env where
  "micOffEnv =
     \<lparr>newTime = 3, isMicReady = False, micVolume = 1, userPitch = 50, tomatoId = 1\<rparr>"

section \<open>Lyric timeline and star row (KaraokeScreen render)\<close>

record LyricLine =
  lineText :: string
  startTime :: real
  endTime :: real

text \<open>\<open>Array.prototype.findIndex\<close>: the index of the first element satisfying the
  predicate, or \<open>-1\<close>.\<close>

fun findIndexFrom :: "('a \<Rightarrow> bool) \<Rightarrow> 'a list \<Rightarrow> int \<Rightarrow> int" where
  "findIndexFrom p [] i = -1"
| "findIndexFrom p (x # xs) i = (if p x then i else findIndexFrom p xs (i + 1))"

definition findIndex :: "('a \<Rightarrow> bool) \<Rightarrow> 'a list \<Rightarrow> int" where
  "findIndex p xs = findIndexFrom p xs 0"

definition activeLineIndex :: "LyricLine list \<Rightarrow> real \<Rightarrow> real \<Rightarrow> int" where
  "activeLineIndex lyrics time lyricsOffset =
     findIndex (\<lambda>line. time \<ge> startTime line - lyricsOffset
                      \<and> time < endTime line - lyricsOffset) lyrics"

text \<open>Both array reads below are in range whenever their guard holds, because
  \<open>findIndex\<close> returns \<open>-1\<close> or a valid index.\<close>

definition activeLine :: "LyricLine list \<Rightarrow> real \<Rightarrow> real \<Rightarrow> LyricLine option" where
  "activeLine lyrics time lyricsOffset =
     (let i = activeLineIndex lyrics time lyricsOffset
      in if i \<noteq> -1 then Some (lyrics ! nat i) else None)"

definition futureLine :: "LyricLine list \<Rightarrow> real \<Rightarrow> real \<Rightarrow> LyricLine option" where
  "futureLine lyrics time lyricsOffset =
     (let i = activeLineIndex lyrics time lyricsOffset
      in if i < int (length lyrics) - 1 then Some (lyrics ! nat (i + 1)) else None)"

definition stars :: "int \<Rightarrow> int" where
  "stars sc = \<lfloor>real_of_int sc / 3000\<rfloor>"

text \<open>The row of five star icons: icon \<open>i\<close> is highlighted iff \<open>i < stars\<close>.\<close>

definition starRow :: "int \<Rightarrow> bool list" where
  "starRow sc = map (\<lambda>i. i < stars sc) [0, 1, 2, 3, 4]"

definition litStars :: "int \<Rightarrow> nat" where
  "litStars sc = length (filter (\<lambda>lit. lit) (starRow sc))"

text \<open>
  The end-of-song screen (\<open>ScoreScreen\<close>) derives its own star count from the final score:
  \<open>Math.max(1, Math.min(5, Math.floor(score / 3000) + 1))\<close>.
\<close>

definition scoreScreenStars :: "int \<Rightarrow> int" where
  "scoreScreenStars sc = max 1 (min 5 (\<lfloor>real_of_int sc / 3000\<rfloor> + 1))"

definition exampleLyrics :: "LyricLine list" where
  "exampleLyrics =
     [\<lparr>lineText = ''a'', startTime = 0, endTime = 5\<rparr>,
      \<lparr>lineText = ''b'', startTime = 5, endTime = 10\<rparr>]"

section \<open>Pitch and loudness (usePitchDetection)\<close>

subsection \<open>Double-precision arithmetic\<close>

text \<open>
  \<open>findFundamentalFreq\<close> accumulates sums of products, so its result depends on how each
  operation is rounded. A finite double is modelled as the real number it denotes, and an
  arithmetic operation as the exact operation followed by \<open>fl\<close>, rounding to the nearest
  binary64 value with ties to the even significand: 53 significant bits, least normal
  exponent \<open>-1022\<close>, gradual underflow below it. Overflow to an infinity and NaN are not
  represented; neither arises from finite \<open>Float32Array\<close> samples, whose products are below
  \<open>2^256\<close>.
\<close>

definition roundHalfEven :: "real \<Rightarrow> int" where
  "roundHalfEven y =
     (let f = \<lfloor>y\<rfloor> in
      if y - of_int f < 1 / 2 then f
      else if y - of_int f > 1 / 2 then f + 1
      else if even f then f else f + 1)"

definition exponentOf :: "real \<Rightarrow> int" where
  "exponentOf x = \<lfloor>log 2 \<bar>x\<bar>\<rfloor>"

definition ulpOf :: "real \<Rightarrow> real" where
  "ulpOf x = 2 powr real_of_int (max (exponentOf x) (- 1022) - 52)"

definition fl :: "real \<Rightarrow> real" where
  "fl x = (if x = 0 then 0 else real_of_int (roundHalfEven (x / ulpOf x)) * ulpOf x)"

definition dadd :: "real \<Rightarrow> real \<Rightarrow> real" where
  "dadd a b = fl (a + b)"

definition dmul :: "real \<Rightarrow> real \<Rightarrow> real" where
  "dmul a b = fl (a * b)"

definition ddiv :: "real \<Rightarrow> real \<Rightarrow> real" where
  "ddiv a b = fl (a / b)"

subsection \<open>The estimator\<close>

text \<open>
  The inner loop of \<open>findFundamentalFreq\<close>:
  \<open>for (let i = 0; i < buffer.length / 2; i++) correlation += buffer[i] * buffer[i + offset]\<close>.
  The division \<open>buffer.length / 2\<close> is a division of numbers, not of integers, and is
  exact in doubles (halving an integer below \<open>2^53\<close>), as are the loop counters.
  Within the outer loop \<open>offset < buffer.length / 2\<close>, so every read is in range.
\<close>

function correlationLoop :: "real list \<Rightarrow> nat \<Rightarrow> nat \<Rightarrow> real \<Rightarrow> real" where
  "correlationLoop buffer offset i correlation =
     (if real i < real (length buffer) / 2
      then correlationLoop buffer offset (i + 1)
             (dadd correlation (dmul (buffer ! i) (buffer ! (i + offset))))
      else correlation)"
  by pat_completeness auto
termination
  by (relation "measure (\<lambda>(buffer, offset, i, correlation). length buffer - i)") auto

function offsetLoop :: "real list \<Rightarrow> nat \<Rightarrow> real \<times> int \<Rightarrow> real \<times> int" where
  "offsetLoop buffer offset (bestCorrelation, bestOffset) =
     (if real offset < real (length buffer) / 2
      then
        let correlation = ddiv (correlationLoop buffer offset 0 0) (real (length buffer) / 2)
        in offsetLoop buffer (offset + 1)
             (if correlation > bestCorrelation then (correlation, int offset)
              else (bestCorrelation, bestOffset))
      else (bestCorrelation, bestOffset))"
  by pat_completeness auto
termination
  by (relation "measure (\<lambda>(buffer, offset, best). length buffer - offset)") auto

declare correlationLoop.simps [simp del]
declare offsetLoop.simps [simp del]

text \<open>The literal \<open>0.1\<close> denotes the double nearest to one tenth.\<close>

definition findFundamentalFreq :: "real list \<Rightarrow> real \<Rightarrow> real" where
  "findFundamentalFreq buffer sampleRate =
     (let threshold = fl 0.1 in
      case offsetLoop buffer 80 (0, -1) of
        (bestCorrelation, bestOffset) \<Rightarrow>
          if bestCorrelation > threshold then ddiv sampleRate (real_of_int bestOffset) else 0)"

text \<open>
  One round of \<open>processAudio\<close>. \<open>volumeArray\<close> is a \<open>Uint8Array\<close> (byte frequency
  data, each element read as a number from 0 to 255 by \<open>byteValue\<close>), \<open>dataArray\<close> the
  time-domain samples. The result is the pair passed to \<open>setMicVolume\<close> and
  \<open>setUserPitch\<close>. Both arrays have \<open>analyser.frequencyBinCount\<close> elements (1024 for the
  \<open>fftSize\<close> of 2048 the hook sets), so the mean is never taken over an empty array.
\<close>

definition byteValue :: "8 word \<Rightarrow> real" where
  "byteValue amplitude = real (unat amplitude)"

definition sumSquares :: "8 word list \<Rightarrow> real" where
  "sumSquares volumeArray =
     fold (\<lambda>amplitude sum. sum + byteValue amplitude * byteValue amplitude) volumeArray 0"

definition rms :: "8 word list \<Rightarrow> real" where
  "rms volumeArray = sqrt (sumSquares volumeArray / real (length volumeArray)) / 128.0"

definition processAudio :: "real list \<Rightarrow> 8 word list \<Rightarrow> real \<Rightarrow> real \<times> real" where
  "processAudio dataArray volumeArray sampleRate =
     (let fundamentalFreq = findFundamentalFreq dataArray sampleRate;
          pitchValue = max 0 (min 100 ((fundamentalFreq - 100) / 4))
      in (rms volumeArray, if rms volumeArray > 0.01 then pitchValue else 50))"

subsection \<open>The hook's values as the tick sees them\<close>

text \<open>
  \<open>usePitchDetection\<close> holds \<open>userPitch\<close>, \<open>micVolume\<close> and \<open>isMicReady\<close> in React state,
  initially 0, 0 and false. \<open>setupMic\<close> sets \<open>isMicReady\<close> to true when \<open>getUserMedia\<close>
  resolves and to false when it rejects (after a change of device, say), leaving the
  other two as they are; every \<open>processAudio\<close> round overwrites \<open>micVolume\<close> and
  \<open>userPitch\<close>. The three values are fields of \<open>tick_env\<close>, so the hook's transitions
  are written as updates of it.
\<close>

definition hookInitial :: "real \<Rightarrow> real \<Rightarrow> tick_env" where
  "hookInitial t tid =
     \<lparr>newTime = t, isMicReady = False, micVolume = 0, userPitch = 0, tomatoId = tid\<rparr>"

definition setupMicResolved :: "tick_env \<Rightarrow> tick_env" where
  "setupMicResolved env = env\<lparr>isMicReady := True\<rparr>"


definition processAudioFrame ::
    "real list \<Rightarrow> 8 word list \<Rightarrow> real \<Rightarrow> tick_env \<Rightarrow> tick_env" where
  "processAudioFrame dataArray volumeArray sampleRate env =
     (case processAudio dataArray volumeArray sampleRate of
        (rmsValue, pitch) \<Rightarrow> env\<lparr>micVolume := rmsValue, userPitch := pitch\<rparr>)"


text \<open>A frame on which the player's time has reached a song duration of 1000.\<close>

definition songEndEnv :: tick_env where
  "songEndEnv =
     \<lparr>newTime = 1000, isMicReady = True, micVolume = 0, userPitch = 50, tomatoId = 1\<rparr>"

subsection \<open>The estimator as the specification words it\<close>

text \<open>
  Candidate lags: the closed range from 80 to \<open>N / 2\<close>. Normalized correlation at lag \<open>L\<close>:
  the sum of \<open>x[i] * x[i + L]\<close> over the \<open>i < N / 2\<close>, divided by \<open>N / 2\<close>, as a formula over
  the real numbers. The chosen lag is the first candidate whose correlation is maximal, and
  the threshold is one tenth.
\<close>

definition spec_lags :: "real list \<Rightarrow> nat list" where
  "spec_lags x = filter (\<lambda>L. real L \<le> real (length x) / 2) [80..<length x + 1]"

definition spec_corr :: "real list \<Rightarrow> nat \<Rightarrow> real" where
  "spec_corr x L =
     (\<Sum>i\<leftarrow>filter (\<lambda>i. real i < real (length x) / 2) [0..<length x]. x ! i * x ! (i + L))
       / (real (length x) / 2)"

definition spec_bestLag :: "real list \<Rightarrow> nat option" where
  "spec_bestLag x =
     find (\<lambda>L. list_all (\<lambda>L'. spec_corr x L' \<le> spec_corr x L) (spec_lags x)) (spec_lags x)"

definition spec_frequencyHz :: "real list \<Rightarrow> real \<Rightarrow> real" where
  "spec_frequencyHz x sampleRate =
     (case spec_bestLag x of
        None \<Rightarrow> 0
      | Some L \<Rightarrow> if spec_corr x L > 0.1 then sampleRate / real L else 0)"

subsection \<open>The estimator as computed\<close>

text \<open>
  The same description with the two differences the code makes: \<open>N / 2\<close> itself is not a
  candidate lag, and the correlation is evaluated in double arithmetic, each product and
  each partial sum rounded, in index order.
\<close>

definition candidateLags :: "real list \<Rightarrow> nat list" where
  "candidateLags x = filter (\<lambda>L. real L < real (length x) / 2) [80..<length x]"

definition doubleSum :: "real list \<Rightarrow> nat \<Rightarrow> nat list \<Rightarrow> real \<Rightarrow> real" where
  "doubleSum x L indices start =
     foldl (\<lambda>correlation i. dadd correlation (dmul (x ! i) (x ! (i + L)))) start indices"

definition doubleCorr :: "real list \<Rightarrow> nat \<Rightarrow> real" where
  "doubleCorr x L =
     ddiv (doubleSum x L (filter (\<lambda>i. real i < real (length x) / 2) [0..<length x]) 0)
          (real (length x) / 2)"

definition bestLag :: "real list \<Rightarrow> nat option" where
  "bestLag x =
     find (\<lambda>L. list_all (\<lambda>L'. doubleCorr x L' \<le> doubleCorr x L) (candidateLags x))
       (candidateLags x)"

definition frequencyHz :: "real list \<Rightarrow> real \<Rightarrow> real" where
  "frequencyHz x sampleRate =
     (case bestLag x of
        None \<Rightarrow> 0
      | Some L \<Rightarrow> if doubleCorr x L > fl 0.1 then ddiv sampleRate (real L) else 0)"

text \<open>
  The body of the source's outer loop as a function of the lag, with the correlation the
  inner loop computes written as \<open>doubleCorr\<close>; the proofs show that \<open>offsetLoop\<close> folds
  it over the candidate lags.
\<close>

definition pick :: "real list \<Rightarrow> nat \<Rightarrow> real \<times> int \<Rightarrow> real \<times> int" where
  "pick x L best =
     (case best of (bestCorrelation, bestOffset) \<Rightarrow>
        if doubleCorr x L > bestCorrelation then (doubleCorr x L, int L)
        else (bestCorrelation, bestOffset))"

text \<open>Buffers that are zero except at the listed indices.\<close>

definition sparse :: "nat \<Rightarrow> (nat \<times> real) list \<Rightarrow> real list" where
  "sparse n entries =
     map (\<lambda>i. case map_of entries i of Some v \<Rightarrow> v | None \<Rightarrow> 0) [0..<n]"

text \<open>
  162 samples, a 3 at indices 0 and 81: the only lag with a non-zero correlation is
  \<open>N / 2 = 81\<close>.
\<close>

definition halfLagBuffer :: "real list" where
  "halfLagBuffer = sparse 162 [(0, 3), (81, 3)]"

text \<open>
  162 samples whose products at lag 80 are \<open>2^60\<close>, 9 and \<open>- 2^60\<close>, in this order, and zero
  from then on. Every sample is a \<open>Float32Array\<close> value.
\<close>

definition cancellingBuffer :: "real list" where
  "cancellingBuffer =
     sparse 162 [(0, 2 ^ 30), (1, 3), (2, 2 ^ 30), (80, 2 ^ 30), (81, 3), (82, - (2 ^ 30))]"

text \<open>
  Two buffers of 256 samples (48 candidate lags): one correlated at lag 81 only, strongly;
  one correlated at lag 80 only, faintly.
\<close>

definition pitchedBuffer :: "real list" where
  "pitchedBuffer = sparse 256 [(0, 16), (81, 16)]"

definition faintBuffer :: "real list" where
  "faintBuffer = sparse 256 [(0, 1), (80, 1)]"

section \<open>Session start (App)\<close>

text \<open>
  Strings are lists of 8-bit characters. The timestamp syntax that decides whether a line
  is usable is ASCII, so nothing below depends on how wider characters are encoded.
\<close>

definition SONG_DURATION_S :: real where
  "SONG_DURATION_S = 180"

definition isDigit :: "char \<Rightarrow> bool" where
  "isDigit c \<longleftrightarrow> c \<in> set ''0123456789''"

text \<open>\<open>parseInt(ds, 10)\<close> on a string of decimal digits.\<close>

definition parseInt :: "string \<Rightarrow> nat" where
  "parseInt ds = fold (\<lambda>c n. 10 * n + (of_char c - 48)) ds 0"

definition padEnd3 :: "string \<Rightarrow> string" where
  "padEnd3 ms = ms @ replicate (3 - length ms) (CHR ''0'')"

definition isSpace :: "char \<Rightarrow> bool" where
  "isSpace c \<longleftrightarrow> c \<in> set [CHR 0x09, CHR 0x0A, CHR 0x0B, CHR 0x0C, CHR 0x0D, CHR 0x20, CHR 0xA0]"

definition trim :: "string \<Rightarrow> string" where
  "trim s = rev (dropWhile isSpace (rev (dropWhile isSpace s)))"

text \<open>\<open>lrcText.split('\n')\<close>: always at least one piece.\<close>

fun splitNewline :: "string \<Rightarrow> string list" where
  "splitNewline [] = [[]]"
| "splitNewline (c # cs) =
     (if c = CHR 0x0A then [] # splitNewline cs
      else (case splitNewline cs of
              [] \<Rightarrow> [[c]]
            | piece # pieces \<Rightarrow> (c # piece) # pieces))"

text \<open>
  The regular expression \<open>^\[(\d{2}):(\d{2})\.(\d{2,3})\]\<close>: on a match, the three digit
  groups and the rest of the line after the closing bracket.
\<close>

fun matchTimestamp :: "string \<Rightarrow> (string \<times> string \<times> string \<times> string) option" where
  "matchTimestamp (b # m1 # m2 # c # s1 # s2 # d # f1 # f2 # rest) =
     (if b = CHR ''['' \<and> isDigit m1 \<and> isDigit m2 \<and> c = CHR '':'' \<and> isDigit s1 \<and> isDigit s2
         \<and> d = CHR ''.'' \<and> isDigit f1 \<and> isDigit f2
      then (case rest of
              [] \<Rightarrow> None
            | r # rest' \<Rightarrow>
                if r = CHR '']'' then Some ([m1, m2], [s1, s2], [f1, f2], rest')
                else if isDigit r then
                  (case rest' of
                     [] \<Rightarrow> None
                   | r' # rest'' \<Rightarrow>
                       if r' = CHR '']'' then Some ([m1, m2], [s1, s2], [f1, f2, r], rest'')
                       else None)
                else None)
      else None)"
| "matchTimestamp _ = None"

text \<open>The same expression followed by \<open>(.*)\<close>: the group stops at a line terminator.\<close>

definition matchLine :: "string \<Rightarrow> (string \<times> string \<times> string \<times> string) option" where
  "matchLine line =
     (case matchTimestamp line of
        None \<Rightarrow> None
      | Some (mn, sec, ms, rest) \<Rightarrow>
          Some (mn, sec, ms, takeWhile (\<lambda>c. c \<noteq> CHR 0x0A \<and> c \<noteq> CHR 0x0D) rest))"

definition timeOf :: "string \<Rightarrow> string \<Rightarrow> string \<Rightarrow> real" where
  "timeOf mn sec ms =
     real (parseInt mn) * 60 + real (parseInt sec) + real (parseInt (padEnd3 ms)) / 1000"

text \<open>The \<open>for\<close> loop of \<open>parseLRC\<close>, on the lines from index \<open>i\<close> on.\<close>

fun parseLoop :: "string list \<Rightarrow> LyricLine list" where
  "parseLoop [] = []"
| "parseLoop (line # rest) =
     (case matchLine line of
        None \<Rightarrow> parseLoop rest
      | Some (mn, sec, ms, lineTxt) \<Rightarrow>
          (let start = timeOf mn sec ms;
               end' =
                 (case rest of
                    [] \<Rightarrow> SONG_DURATION_S
                  | nextLine # _ \<Rightarrow>
                      (case matchTimestamp nextLine of
                         None \<Rightarrow> SONG_DURATION_S
                       | Some (nextMin, nextSec, nextMs, _) \<Rightarrow> timeOf nextMin nextSec nextMs))
           in \<lparr>lineText = trim lineTxt, startTime = start, endTime = end'\<rparr> # parseLoop rest))"

definition fixLastLine :: "LyricLine list \<Rightarrow> LyricLine list" where
  "fixLastLine timedLyrics =
     (if length timedLyrics > 0 then
        (let lastLine = last timedLyrics in
         if endTime lastLine = SONG_DURATION_S
         then butlast timedLyrics @ [lastLine\<lparr>endTime := startTime lastLine + 5\<rparr>]
         else timedLyrics)
      else timedLyrics)"

definition parseLRC :: "string \<Rightarrow> LyricLine list" where
  "parseLRC lrcText =
     (let lines = filter (\<lambda>line. matchTimestamp line \<noteq> None) (splitNewline lrcText)
      in if length lines = 0 then [] else fixLastLine (parseLoop lines))"

datatype AppState = HOME | LOADING_LYRICS | KARAOKE | SCORE

record SongDetails =
  artist :: string
  title :: string
  youtubeUrl :: string

text \<open>
  What \<open>setError\<close> receives in \<open>handleStartKaraoke\<close>: the fixed message of the
  empty-lyrics \<open>Error\<close> thrown there, or the message of whatever \<open>fetchLyrics\<close> threw.
\<close>

datatype startError = NoSyncedLyrics | FetchFailed string

text \<open>The outcome of awaiting \<open>fetchLyrics\<close>: the LRC text, or a rejection.\<close>

datatype fetchOutcome = Resolved string | Rejected string

record app =
  appState :: AppState
  songDetails :: "SongDetails option"
  lyrics :: "LyricLine list"
  finalScore :: int
  error :: "startError option"
  history :: "SongDetails list"

definition addSongToHistory :: "SongDetails \<Rightarrow> SongDetails list \<Rightarrow> SongDetails list" where
  "addSongToHistory song prevHistory =
     take 5 (song # filter (\<lambda>item. youtubeUrl item \<noteq> youtubeUrl song) prevHistory)"

definition handleStartKaraoke :: "fetchOutcome \<Rightarrow> SongDetails \<Rightarrow> app \<Rightarrow> app" where
  "handleStartKaraoke outcome details st =
     (let st1 = st\<lparr>appState := LOADING_LYRICS, error := None\<rparr> in
      case outcome of
        Rejected msg \<Rightarrow> st1\<lparr>error := Some (FetchFailed msg), appState := HOME\<rparr>
      | Resolved lyricsLRC \<Rightarrow>
          (let timedLyrics = parseLRC lyricsLRC in
           if length timedLyrics = 0
           then st1\<lparr>error := Some NoSyncedLyrics, appState := HOME\<rparr>
           else st1\<lparr>history := addSongToHistory details (history st1),
                     lyrics := timedLyrics,
                     songDetails := Some details,
                     appState := KARAOKE\<rparr>))"

text \<open>\<open>renderContent\<close>: which screen is mounted. \<open>PlayAgainFallback\<close> stands for the
  branch that calls \<open>handlePlayAgain\<close> and renders nothing.\<close>

datatype screen =
    KaraokeScreen SongDetails "LyricLine list"
  | ScoreScreen int
  | HomeScreen bool "startError option"
  | PlayAgainFallback

definition renderContent :: "app \<Rightarrow> screen" where
  "renderContent st =
     (case appState st of
        KARAOKE \<Rightarrow>
          (case songDetails st of
             Some details \<Rightarrow>
               if length (lyrics st) > 0 then KaraokeScreen details (lyrics st)
               else PlayAgainFallback
           | None \<Rightarrow> PlayAgainFallback)
      | SCORE \<Rightarrow> ScoreScreen (finalScore st)
      | LOADING_LYRICS \<Rightarrow> HomeScreen True (error st)
      | HOME \<Rightarrow> HomeScreen False (error st))"

definition homeApp :: app where
  "homeApp = \<lparr>appState = HOME, songDetails = None, lyrics = [], finalScore = 0,
              error = None, history = []\<rparr>"

definition someSong :: SongDetails where
  "someSong = \<lparr>artist = ''Queen'', title = ''Bohemian Rhapsody'', youtubeUrl = ''https://youtu.be/fJ9rUzIMcZQ''\<rparr>"

section \<open>Properties of the loudness measure\<close>

lemma byteValue_bounds: "0 \<le> byteValue a \<and> byteValue a \<le> 255"
proof -
  have "unat a < 2 ^ LENGTH(8)" by (rule unsigned_less)
  then have "unat a \<le> 255" by simp
  then have "real (unat a) \<le> real 255" by (simp only: of_nat_le_iff)
  moreover have "0 \<le> real (unat a)" by (rule of_nat_0_le_iff)
  ultimately show ?thesis unfolding byteValue_def by simp
qed

lemma fold_sumSquares:
  "fold (\<lambda>amplitude sum. sum + byteValue amplitude * byteValue amplitude) xs acc
     = acc + (\<Sum>a\<leftarrow>xs. byteValue a * byteValue a)"
  by (induction xs arbitrary: acc) simp_all

lemma sumSquares_sum: "sumSquares xs = (\<Sum>a\<leftarrow>xs. (byteValue a)\<^sup>2)"
  by (simp add: sumSquares_def fold_sumSquares power2_eq_square)

lemma sumSquares_replicate: "sumSquares (replicate n a) = real n * (byteValue a)\<^sup>2"
  by (simp add: sumSquares_sum sum_list_replicate)

lemma rms_replicate:
  assumes "0 < n"
  shows "rms (replicate n a) = byteValue a / 128"
proof -
  have "sumSquares (replicate n a) / real (length (replicate n a)) = (byteValue a)\<^sup>2"
    using assms by (simp add: sumSquares_replicate)
  moreover have "0 \<le> byteValue a" using byteValue_bounds [of a] by simp
  ultimately show ?thesis by (simp add: rms_def)
qed

lemma sumSquares_bounds:
  "0 \<le> sumSquares xs \<and> sumSquares xs \<le> real (length xs) * 255\<^sup>2"
proof (induction xs)
  case Nil
  show ?case by (simp add: sumSquares_sum)
next
  case (Cons a xs)
  from byteValue_bounds [of a] have "(byteValue a)\<^sup>2 \<le> 255\<^sup>2"
    by (intro power_mono) simp_all
  moreover have "0 \<le> (byteValue a)\<^sup>2" by simp
  ultimately show ?case using Cons.IH
    by (simp add: sumSquares_sum algebra_simps)
qed

lemma rms_bounds:
  assumes "volumeArray \<noteq> []"
  shows "0 \<le> rms volumeArray \<and> rms volumeArray \<le> 255 / 128"
proof -
  let ?n = "real (length volumeArray)"
  have pos: "0 < ?n" using assms by simp
  from sumSquares_bounds [of volumeArray]
  have lo: "0 \<le> sumSquares volumeArray" and hi: "sumSquares volumeArray \<le> ?n * 255\<^sup>2"
    by simp_all
  from hi pos have "sumSquares volumeArray / ?n \<le> 255\<^sup>2"
    by (simp add: divide_le_eq mult.commute)
  then have "sqrt (sumSquares volumeArray / ?n) \<le> sqrt (255\<^sup>2)"
    by (rule real_sqrt_le_mono)
  then have "sqrt (sumSquares volumeArray / ?n) \<le> 255" by simp
  moreover have "0 \<le> sqrt (sumSquares volumeArray / ?n)" using lo pos by simp
  ultimately show ?thesis by (simp add: rms_def)
qed




text \<open>
  Claim C6 at a concrete frame. When every one of the 1024 frequency bins holds the
  largest byte, 255, the loudness that \<open>processAudio\<close> reports is \<open>255 / 128\<close>, which is
  greater than 1: the root mean square is divided by 128, not by 255, and nothing clips it.
\<close>

theorem rms_exceeds_one: "rms (replicate 1024 255) = 255 / 128
  \<and> fst (processAudio dataArray (replicate 1024 255) sampleRate) > 1"
proof -
  have "rms (replicate 1024 255) = byteValue 255 / 128"
    by (rule rms_replicate) simp
  then have r: "rms (replicate 1024 255) = 255 / 128" by (simp add: byteValue_def)
  then show ?thesis by (simp add: processAudio_def Let_def)
qed


section \<open>Properties of the scoring tick\<close>


lemma gameTick_continue:
  "snd (gameTick songDuration env s) \<longleftrightarrow> newTime env < songDuration"
  by (simp add: gameTick_def Let_def)

lemma gameTick_score_mono: "score s \<le> score (fst (gameTick songDuration env s))"
  by (simp add: gameTick_def Let_def)

lemma gameLoop_score_mono: "score s \<le> score (gameLoop songDuration envs s)"
proof (induction envs arbitrary: s)
  case Nil
  show ?case by simp
next
  case (Cons env envs)
  obtain s' continue where t: "gameTick songDuration env s = (s', continue)"
    by (cases "gameTick songDuration env s")
  have step: "score s \<le> score s'"
    using gameTick_score_mono [of s songDuration env] t by simp
  show ?case
  proof (cases continue)
    case True
    with t step Cons.IH [of s'] show ?thesis by simp
  next
    case False
    with t step show ?thesis by simp
  qed
qed

lemma gameLoop_append_score:
  "score (gameLoop songDuration envs s) \<le> score (gameLoop songDuration (envs @ envs') s)"
proof (induction envs arbitrary: s)
  case Nil
  show ?case by (simp add: gameLoop_score_mono)
next
  case (Cons env envs)
  obtain s' continue where t: "gameTick songDuration env s = (s', continue)"
    by (cases "gameTick songDuration env s")
  show ?case
  proof (cases continue)
    case True
    with t Cons.IH [of s'] show ?thesis by simp
  next
    case False
    with t show ?thesis by simp
  qed
qed

lemma gameTick_silent:
  assumes "silentFrame songDuration env"
  shows "gameTick songDuration env s =
    ((if noSingingCounter s + 1 > 120
      then s\<lparr>currentTime := newTime env, tomatoes := tomatoes s @ [tomatoId env],
              noSingingCounter := 0\<rparr>
      else s\<lparr>currentTime := newTime env, noSingingCounter := noSingingCounter s + 1\<rparr>), True)"
  using assms by (simp add: gameTick_def silentFrame_def Let_def)

lemma gameLoop_silent_below:
  assumes "list_all (silentFrame songDuration) envs"
    and "noSingingCounter s + length envs \<le> 120"
  shows "tomatoes (gameLoop songDuration envs s) = tomatoes s
       \<and> noSingingCounter (gameLoop songDuration envs s) = noSingingCounter s + length envs
       \<and> score (gameLoop songDuration envs s) = score s
       \<and> reportedScore (gameLoop songDuration envs s) = reportedScore s"
  using assms
proof (induction envs arbitrary: s)
  case Nil
  show ?case by simp
next
  case (Cons env envs)
  from Cons.prems have sil: "silentFrame songDuration env"
    and rest: "list_all (silentFrame songDuration) envs" by simp_all
  let ?s' = "s\<lparr>currentTime := newTime env, noSingingCounter := noSingingCounter s + 1\<rparr>"
  from Cons.prems have small: "\<not> noSingingCounter s + 1 > 120" by simp
  have t: "gameTick songDuration env s = (?s', True)"
    using gameTick_silent [OF sil, of s] small by simp
  have "noSingingCounter ?s' + length envs \<le> 120" using Cons.prems by simp
  from Cons.IH [OF rest this] t show ?case by simp
qed

lemma gameLoop_snoc_silent:
  assumes "list_all (silentFrame songDuration) envs"
    and "noSingingCounter s + length envs \<le> 120"
    and "silentFrame songDuration env"
  shows "gameLoop songDuration (envs @ [env]) s =
           fst (gameTick songDuration env (gameLoop songDuration envs s))"
  using assms
proof (induction envs arbitrary: s)
  case Nil
  then show ?case by (simp add: gameTick_silent)
next
  case (Cons e envs)
  from Cons.prems have sil: "silentFrame songDuration e"
    and rest: "list_all (silentFrame songDuration) envs" by simp_all
  let ?s' = "s\<lparr>currentTime := newTime e, noSingingCounter := noSingingCounter s + 1\<rparr>"
  from Cons.prems have small: "\<not> noSingingCounter s + 1 > 120" by simp
  have t: "gameTick songDuration e s = (?s', True)"
    using gameTick_silent [OF sil, of s] small by simp
  have "noSingingCounter ?s' + length envs \<le> 120" using Cons.prems by simp
  from Cons.IH [OF rest this Cons.prems(3)] t show ?case by simp
qed


lemma frameEnv_quiet_room:
  "processAudioFrame (replicate 1024 0) (replicate 1024 0) 44100 (setupMicResolved (hookInitial 0 1))
     = frameEnv 0 50"
proof -
  have "rms (replicate 1024 0) = byteValue 0 / 128" by (rule rms_replicate) simp
  then have "rms (replicate 1024 0) = 0" by (simp add: byteValue_def)
  then show ?thesis
    by (simp add: processAudioFrame_def processAudio_def Let_def setupMicResolved_def
        hookInitial_def frameEnv_def)
qed





text \<open>
  Claim C4, with 121 ticks. From a silence counter of 0, any 121 consecutive frames on
  each of which the song has not ended, the microphone is ready and the loudness is at
  most 0.05 throw exactly one tomato, on the 121st frame, and leave the counter at 0;
  after each shorter prefix, in particular after 120 frames, no tomato has been thrown and
  the counter equals the number of frames. Since this holds from every state whose counter
  is 0, it repeats while silence lasts.
\<close>

theorem silence_121_ticks:
  assumes "length envs = 121"
    and "list_all (silentFrame songDuration) envs"
    and "noSingingCounter s = 0"
  shows "tomatoes (gameLoop songDuration envs s) = tomatoes s @ [tomatoId (last envs)]
       \<and> noSingingCounter (gameLoop songDuration envs s) = 0
       \<and> score (gameLoop songDuration envs s) = score s
       \<and> (\<forall>k \<le> 120. tomatoes (gameLoop songDuration (take k envs) s) = tomatoes s
                   \<and> noSingingCounter (gameLoop songDuration (take k envs) s) = k)"
proof -
  have ne: "envs \<noteq> []" using assms(1) by auto
  let ?front = "butlast envs"
  have split: "envs = ?front @ [last envs]" using ne by simp
  have front_len: "length ?front = 120" using assms(1) by simp
  have front_silent: "list_all (silentFrame songDuration) ?front"
    using assms(2) by (simp add: list_all_iff in_set_butlastD)
  have last_silent: "silentFrame songDuration (last envs)"
    using assms(2) ne by (simp add: list_all_iff)
  have bound: "noSingingCounter s + length ?front \<le> 120"
    using assms(3) front_len by simp
  note front = gameLoop_silent_below [OF front_silent bound]
  have "gameLoop songDuration (?front @ [last envs]) s =
          fst (gameTick songDuration (last envs) (gameLoop songDuration ?front s))"
    by (rule gameLoop_snoc_silent [OF front_silent bound last_silent])
  then have whole: "gameLoop songDuration envs s =
          fst (gameTick songDuration (last envs) (gameLoop songDuration ?front s))"
    using split by simp
  have c120: "noSingingCounter (gameLoop songDuration ?front s) = 120"
    using front assms(3) front_len by simp
  have final: "tomatoes (gameLoop songDuration envs s) = tomatoes s @ [tomatoId (last envs)]
       \<and> noSingingCounter (gameLoop songDuration envs s) = 0
       \<and> score (gameLoop songDuration envs s) = score s"
    using front c120 by (simp add: whole gameTick_silent [OF last_silent])
  have prefixes: "tomatoes (gameLoop songDuration (take k envs) s) = tomatoes s
       \<and> noSingingCounter (gameLoop songDuration (take k envs) s) = k" if "k \<le> 120" for k
  proof -
    have sil: "list_all (silentFrame songDuration) (take k envs)"
      using assms(2) by (auto simp: list_all_iff dest: in_set_takeD)
    have len: "length (take k envs) = k" using that assms(1) by simp
    have "noSingingCounter s + length (take k envs) \<le> 120"
      using len that assms(3) by simp
    from gameLoop_silent_below [OF sil this] len assms(3) show ?thesis by simp
  qed
  from final prefixes show ?thesis by blast
qed

theorem silence_121_ticks_witness:
  "tomatoes (gameLoop 1000 (replicate 121 (frameEnv 0 50)) initialState) = [1]
 \<and> noSingingCounter (gameLoop 1000 (replicate 121 (frameEnv 0 50)) initialState) = 0"
proof -
  have len: "length (replicate 121 (frameEnv 0 50)) = 121" by simp
  have sil: "list_all (silentFrame 1000) (replicate 121 (frameEnv 0 50))"
    by (simp add: list_all_iff silentFrame_def frameEnv_def)
  have c0: "noSingingCounter initialState = 0" by (simp add: initialState_def)
  have l: "last (replicate 121 (frameEnv 0 50)) = frameEnv 0 50" by simp
  show ?thesis
    using silence_121_ticks [OF len sil c0]
    by (simp add: l) (simp add: frameEnv_def initialState_def)
qed

lemma gameLoop_mic_off:
  assumes "list_all (\<lambda>env. \<not> isMicReady env) envs"
  shows "tomatoes (gameLoop songDuration envs s) = tomatoes s
       \<and> noSingingCounter (gameLoop songDuration envs s) = noSingingCounter s
       \<and> score (gameLoop songDuration envs s) = score s"
  using assms
proof (induction envs arbitrary: s)
  case Nil
  show ?case by simp
next
  case (Cons env envs)
  from Cons.prems have off: "\<not> isMicReady env"
    and rest: "list_all (\<lambda>env. \<not> isMicReady env) envs" by simp_all
  obtain s' continue where t: "gameTick songDuration env s = (s', continue)"
    by (cases "gameTick songDuration env s")
  from off t have same: "tomatoes s' = tomatoes s \<and> noSingingCounter s' = noSingingCounter s
      \<and> score s' = score s"
    by (auto simp: gameTick_def Let_def split: if_splits)
  show ?case
  proof (cases continue)
    case True
    with t same Cons.IH [OF rest, of s'] show ?thesis by simp
  next
    case False
    with t same show ?thesis by simp
  qed
qed

lemma gameLoop_append_active:
  assumes "list_all (\<lambda>env. newTime env < songDuration) envs"
  shows "gameLoop songDuration (envs @ envs') s =
           gameLoop songDuration envs' (gameLoop songDuration envs s)"
  using assms
proof (induction envs arbitrary: s)
  case Nil
  show ?case by simp
next
  case (Cons env envs)
  from Cons.prems have act: "newTime env < songDuration"
    and rest: "list_all (\<lambda>env. newTime env < songDuration) envs" by simp_all
  obtain s' continue where t: "gameTick songDuration env s = (s', continue)"
    by (cases "gameTick songDuration env s")
  from gameTick_continue [of songDuration env s] act t have "continue" by simp
  with t Cons.IH [OF rest, of s'] show ?case by simp
qed

text \<open>
  Claim C4 as stated fails: from a counter of 0, with the microphone ready and loudness 0
  on every frame, 120 frames throw no tomato and leave the counter at 120. Two more runs
  with loudness 0 on every frame show what the 121st frame needs. With the microphone not
  ready (the hook's initial values), 121 frames throw no tomato and leave the counter at
  0. With the microphone ready, 120 frames followed by a frame on which the song has ended
  throw no tomato and leave the counter at 120.
\<close>

theorem silence_ticks_counterexample:
  "list_all (silentFrame 1000) (replicate 120 (frameEnv 0 50))
 \<and> micVolume (frameEnv 0 50) < 0.05
 \<and> tomatoes (gameLoop 1000 (replicate 120 (frameEnv 0 50)) initialState) = []
 \<and> noSingingCounter (gameLoop 1000 (replicate 120 (frameEnv 0 50)) initialState) = 120
 \<and> micVolume (hookInitial 0 1) < 0.05
 \<and> tomatoes (gameLoop 1000 (replicate 121 (hookInitial 0 1)) initialState) = []
 \<and> noSingingCounter (gameLoop 1000 (replicate 121 (hookInitial 0 1)) initialState) = 0
 \<and> micVolume songEndEnv < 0.05
 \<and> tomatoes (gameLoop 1000 (replicate 120 (frameEnv 0 50) @ [songEndEnv]) initialState) = []
 \<and> noSingingCounter (gameLoop 1000 (replicate 120 (frameEnv 0 50) @ [songEndEnv]) initialState) = 120"
proof -
  have sil: "list_all (silentFrame 1000) (replicate 120 (frameEnv 0 50))"
    by (simp add: list_all_iff silentFrame_def frameEnv_def)
  have bound: "noSingingCounter initialState + length (replicate 120 (frameEnv 0 50)) \<le> 120"
    by (simp add: initialState_def)
  have quiet: "micVolume (frameEnv 0 50) < 0.05" "micVolume (hookInitial 0 1) < 0.05"
    "micVolume songEndEnv < 0.05"
    by (simp_all add: frameEnv_def hookInitial_def songEndEnv_def)
  from gameLoop_silent_below [OF sil bound]
  have ready: "tomatoes (gameLoop 1000 (replicate 120 (frameEnv 0 50)) initialState) = []"
    "noSingingCounter (gameLoop 1000 (replicate 120 (frameEnv 0 50)) initialState) = 120"
    by (simp_all add: initialState_def)
  have "list_all (\<lambda>env. \<not> isMicReady env) (replicate 121 (hookInitial 0 1))"
    by (simp add: list_all_iff hookInitial_def)
  from gameLoop_mic_off [OF this, of 1000 initialState]
  have off: "tomatoes (gameLoop 1000 (replicate 121 (hookInitial 0 1)) initialState) = []"
    "noSingingCounter (gameLoop 1000 (replicate 121 (hookInitial 0 1)) initialState) = 0"
    by (simp_all add: initialState_def)
  have "list_all (\<lambda>env. newTime env < 1000) (replicate 120 (frameEnv 0 50))"
    by (simp add: list_all_iff frameEnv_def)
  from gameLoop_append_active [OF this, of "[songEndEnv]" initialState]
  have "gameLoop 1000 (replicate 120 (frameEnv 0 50) @ [songEndEnv]) initialState =
      fst (gameTick 1000 songEndEnv (gameLoop 1000 (replicate 120 (frameEnv 0 50)) initialState))"
    by (simp add: gameTick_def Let_def songEndEnv_def)
  with ready
  have ended: "tomatoes (gameLoop 1000 (replicate 120 (frameEnv 0 50) @ [songEndEnv]) initialState) = []"
    "noSingingCounter (gameLoop 1000 (replicate 120 (frameEnv 0 50) @ [songEndEnv]) initialState) = 120"
    by (simp_all add: gameTick_def Let_def songEndEnv_def)
  from sil quiet ready off ended show ?thesis by simp
qed

text \<open>
  Claim C5. No tick decreases the score; along any sequence of ticks the score after a
  longer run is at least the score after any shorter run; and from the initial state
  (score 0) the integer score is never negative.
\<close>

theorem score_monotone:
  "score s \<le> score (fst (gameTick songDuration env s))
 \<and> score (gameLoop songDuration envs s) \<le> score (gameLoop songDuration (envs @ envs') s)
 \<and> 0 \<le> score (gameLoop songDuration envs initialState)"
proof -
  have "score initialState \<le> score (gameLoop songDuration envs initialState)"
    by (rule gameLoop_score_mono)
  then have "0 \<le> score (gameLoop songDuration envs initialState)"
    by (simp add: initialState_def)
  then show ?thesis
    by (simp add: gameTick_score_mono gameLoop_append_score)
qed

text \<open>
  Claim C8. On a tick taken while the microphone is not ready, the score, the silence
  counter and the list of thrown tomatoes are unchanged, while the playback time shown
  (and with it the displayed target pitch) follows the player.
\<close>

theorem gameTick_mic_not_ready:
  assumes "\<not> isMicReady env"
  shows "score (fst (gameTick songDuration env s)) = score s
       \<and> noSingingCounter (fst (gameTick songDuration env s)) = noSingingCounter s
       \<and> tomatoes (fst (gameTick songDuration env s)) = tomatoes s
       \<and> currentTime (fst (gameTick songDuration env s)) = newTime env"
  using assms by (simp add: gameTick_def Let_def)

theorem gameTick_mic_not_ready_witness:
  "\<not> isMicReady micOffEnv
 \<and> score (fst (gameTick 10 micOffEnv initialState)) = 0
 \<and> noSingingCounter (fst (gameTick 10 micOffEnv initialState)) = 0
 \<and> tomatoes (fst (gameTick 10 micOffEnv initialState)) = []
 \<and> currentTime (fst (gameTick 10 micOffEnv initialState)) = 3"
proof -
  have off: "\<not> isMicReady micOffEnv" by (simp add: micOffEnv_def)
  from gameTick_mic_not_ready [OF off, of 10 initialState] off show ?thesis
    by (simp add: initialState_def micOffEnv_def)
qed


section \<open>Properties of the lyric timeline and the star row\<close>

lemma findIndexFrom_range:
  "findIndexFrom p xs i = -1 \<or> (i \<le> findIndexFrom p xs i \<and> findIndexFrom p xs i < i + int (length xs))"
  by (induction xs arbitrary: i) (auto, force+)


text \<open>
  Claim C7. For the lines \<open>a\<close> on [0, 5) and \<open>b\<close> on [5, 10): with offset 0, at time 3
  the active line is \<open>a\<close> and the next line \<open>b\<close>; at time 7 the active line is \<open>b\<close> and
  there is no next line; at time 12 there is no active line. With offset 0.5, at time
  4.6 the active line is already \<open>b\<close>.
\<close>

theorem timeline_example:
  "map_option lineText (activeLine exampleLyrics 3 0) = Some ''a''
 \<and> map_option lineText (futureLine exampleLyrics 3 0) = Some ''b''
 \<and> map_option lineText (activeLine exampleLyrics 7 0) = Some ''b''
 \<and> futureLine exampleLyrics 7 0 = None
 \<and> activeLine exampleLyrics 12 0 = None
 \<and> map_option lineText (activeLine exampleLyrics 4.6 0.5) = Some ''b''"
  by (simp add: activeLine_def futureLine_def activeLineIndex_def findIndex_def
      exampleLyrics_def)



text \<open>
  The end-of-song screen counts differently from the in-game row: it shows one star more
  below 12000 points, and never fewer than one.
\<close>

lemma scoreScreenStars_examples:
  "scoreScreenStars 0 = 1 \<and> scoreScreenStars 3000 = 2 \<and> scoreScreenStars 14999 = 5
 \<and> scoreScreenStars 15000 = 5 \<and> scoreScreenStars 100000 = 5"
proof -
  have f: "\<lfloor>real_of_int n / 3000\<rfloor> = n div 3000" for n :: int
    using floor_divide_of_int_eq [of n 3000, where ?'a = real] by simp
  show ?thesis unfolding scoreScreenStars_def f by simp
qed

text \<open>
  The row of five icons highlights \<open>floor (score / 3000)\<close> of them, clamped to the
  interval from 0 to 5.
\<close>

lemma litStars_clamped:
  "int (litStars sc) = max 0 (min 5 \<lfloor>real_of_int sc / 3000\<rfloor>)"
proof -
  have row: "int (length (filter (\<lambda>lit. lit) (map (\<lambda>i. i < k) [0, 1, 2, 3, 4]))) = max 0 (min 5 k)"
    for k :: int
    by simp
  show ?thesis
    unfolding litStars_def starRow_def stars_def by (rule row)
qed

text \<open>
  Claim C2, without the clamp. The star rating \<open>stars\<close> that the karaoke screen derives
  from the score is \<open>floor (score / 3000)\<close>; it equals that value clamped to the interval
  from 0 to 5 exactly for the scores from 0 up to 17999. For the scores 0, 3000, 14999,
  15000 and 100000 it is 0, 1, 4, 5 and 33.
\<close>

theorem stars_unclamped:
  "stars sc = sc div 3000
 \<and> (stars sc = max 0 (min 5 \<lfloor>real_of_int sc / 3000\<rfloor>) \<longleftrightarrow> 0 \<le> sc \<and> sc < 18000)
 \<and> stars 0 = 0 \<and> stars 3000 = 1 \<and> stars 14999 = 4 \<and> stars 15000 = 5 \<and> stars 100000 = 33"
proof -
  have f: "\<lfloor>real_of_int n / 3000\<rfloor> = n div 3000" for n :: int
    using floor_divide_of_int_eq [of n 3000, where ?'a = real] by simp
  have s: "stars n = n div 3000" for n
    by (simp add: stars_def f)
  have "(sc div 3000 = max 0 (min 5 (sc div 3000))) \<longleftrightarrow> 0 \<le> sc \<and> sc < 18000"
    by (auto simp: max_def min_def)
  then show ?thesis unfolding s f by simp
qed

theorem stars_unclamped_witness:
  "stars 17999 = 5 \<and> stars 18000 = 6"
  using stars_unclamped [of 17999] stars_unclamped [of 18000] by simp

text \<open>
  Claim C2 as stated fails from 18000 points on: the rating is 6 there, and 33 at 100000
  points, where the clamp gives 5.
\<close>

theorem stars_counterexample:
  "stars 18000 = 6 \<and> stars 100000 = 33
 \<and> max 0 (min 5 \<lfloor>real_of_int 100000 / 3000\<rfloor>) = (5::int)
 \<and> stars 100000 \<noteq> max 0 (min 5 \<lfloor>real_of_int 100000 / 3000\<rfloor>)"
proof -
  have f: "\<lfloor>real_of_int n / 3000\<rfloor> = n div 3000" for n :: int
    using floor_divide_of_int_eq [of n 3000, where ?'a = real] by simp
  show ?thesis unfolding stars_def f by simp
qed

section \<open>Properties of the rounding\<close>

lemma exponentOf_eq:
  assumes "2 powr real_of_int e \<le> \<bar>x\<bar>" and "\<bar>x\<bar> < 2 powr real_of_int (e + 1)"
  shows "exponentOf x = e"
proof -
  have "0 < 2 powr real_of_int e" by simp
  with assms(1) have pos: "0 < \<bar>x\<bar>" by linarith
  show ?thesis
    unfolding exponentOf_def
    using assms floor_log_eq_powr_iff [of "\<bar>x\<bar>" 2 e] pos by simp
qed

lemma roundHalfEven_of_int: "roundHalfEven (of_int m) = m"
  by (simp add: roundHalfEven_def)

lemma roundHalfEven_down:
  assumes "of_int m \<le> y" and "y < of_int m + 1 / 2"
  shows "roundHalfEven y = m"
proof -
  have "\<lfloor>y\<rfloor> = m" using assms by linarith
  with assms show ?thesis by (simp add: roundHalfEven_def)
qed

lemma roundHalfEven_up:
  assumes "of_int m - 1 / 2 < y" and "y \<le> of_int m"
  shows "roundHalfEven y = m"
proof (cases "y = of_int m")
  case True
  then show ?thesis by (simp add: roundHalfEven_of_int)
next
  case False
  with assms have "\<lfloor>y\<rfloor> = m - 1" by linarith
  with assms False show ?thesis by (simp add: roundHalfEven_def)
qed

lemma fl_0: "fl 0 = 0"
  by (simp add: fl_def)

lemma fl_eval:
  assumes "2 powr real_of_int e \<le> \<bar>x\<bar>" and "\<bar>x\<bar> < 2 powr real_of_int (e + 1)"
    and "- 1022 \<le> e"
  shows "fl x = real_of_int (roundHalfEven (x / 2 powr real_of_int (e - 52)))
                  * 2 powr real_of_int (e - 52)"
proof -
  have "exponentOf x = e" by (rule exponentOf_eq [OF assms(1,2)])
  with assms(3) have u: "ulpOf x = 2 powr real_of_int (e - 52)"
    by (simp add: ulpOf_def max_def)
  have "0 < 2 powr real_of_int e" by simp
  with assms(1) have "x \<noteq> 0" by auto
  then show ?thesis by (simp add: fl_def u)
qed

lemma fl_exact:
  assumes "2 powr real_of_int e \<le> \<bar>x\<bar>" and "\<bar>x\<bar> < 2 powr real_of_int (e + 1)"
    and "- 1022 \<le> e" and "x / 2 powr real_of_int (e - 52) = real_of_int m"
  shows "fl x = x"
proof -
  have "fl x = real_of_int (roundHalfEven (real_of_int m)) * 2 powr real_of_int (e - 52)"
    using fl_eval [OF assms(1,2,3)] by (simp only: assms(4))
  also have "\<dots> = x / 2 powr real_of_int (e - 52) * 2 powr real_of_int (e - 52)"
    by (simp only: roundHalfEven_of_int assms(4))
  also have "\<dots> = x" by simp
  finally show ?thesis .
qed

lemma fl_1: "fl 1 = 1"
  by (rule fl_exact [where e = 0 and m = "2 ^ 52"]) (simp_all add: powr_neg_numeral)

lemma fl_2: "fl 2 = 2"
  by (rule fl_exact [where e = 1 and m = "2 ^ 52"]) (simp_all add: powr_neg_numeral)

lemma fl_9: "fl 9 = 9"
  by (rule fl_exact [where e = 3 and m = "9 * 2 ^ 49"]) (simp_all add: powr_neg_numeral)

lemma fl_256: "fl 256 = 256"
  by (rule fl_exact [where e = 8 and m = "2 ^ 52"]) (simp_all add: powr_neg_numeral)

lemma fl_128th: "fl (1 / 128) = 1 / 128"
  by (rule fl_exact [where e = "- 7" and m = "2 ^ 52"]) (simp_all add: powr_neg_numeral)

lemma fl_2p60: "fl (2 ^ 60) = 2 ^ 60"
  by (rule fl_exact [where e = 60 and m = "2 ^ 52"]) simp_all

lemma fl_neg_2p60: "fl (- (2 ^ 60)) = - (2 ^ 60)"
  by (rule fl_exact [where e = 60 and m = "- (2 ^ 52)"]) simp_all

lemma fl_2p60_9: "fl (2 ^ 60 + 9) = 2 ^ 60"
proof -
  have "fl (2 ^ 60 + 9) =
      real_of_int (roundHalfEven ((2 ^ 60 + 9) / 2 powr real_of_int (60 - 52)))
        * 2 powr real_of_int (60 - 52)"
    by (rule fl_eval) simp_all
  also have "roundHalfEven ((2 ^ 60 + 9) / 2 powr real_of_int (60 - 52)) = 2 ^ 52"
    by (rule roundHalfEven_down) simp_all
  finally show ?thesis by simp
qed

lemma fl_tenth: "fl 0.1 = 3602879701896397 / 36028797018963968"
proof -
  have "fl 0.1 =
      real_of_int (roundHalfEven (0.1 / 2 powr real_of_int (- 4 - 52)))
        * 2 powr real_of_int (- 4 - 52)"
    by (rule fl_eval) (simp_all add: powr_neg_numeral)
  also have "roundHalfEven (0.1 / 2 powr real_of_int (- 4 - 52)) = 7205759403792794"
    by (rule roundHalfEven_up) (simp_all add: powr_neg_numeral)
  finally show ?thesis by (simp add: powr_neg_numeral)
qed

section \<open>Properties of the pitch estimator\<close>

lemma correlationLoop_doubleSum:
  "correlationLoop buffer offset i acc =
     doubleSum buffer offset
       (filter (\<lambda>k. real k < real (length buffer) / 2) [i..<length buffer]) acc"
proof (induction buffer offset i acc rule: correlationLoop.induct)
  case (1 buffer offset i acc)
  let ?inRange = "\<lambda>k. real k < real (length buffer) / 2"
  show ?case
  proof (cases "?inRange i")
    case True
    then have "i < length buffer" by simp
    then have cons: "[i..<length buffer] = i # [i + 1..<length buffer]"
      by (simp add: upt_conv_Cons)
    have "correlationLoop buffer offset i acc =
        correlationLoop buffer offset (i + 1)
          (dadd acc (dmul (buffer ! i) (buffer ! (i + offset))))"
      by (subst correlationLoop.simps) (simp only: True if_True)
    also have "\<dots> = doubleSum buffer offset (filter ?inRange [i + 1..<length buffer])
          (dadd acc (dmul (buffer ! i) (buffer ! (i + offset))))"
      by (rule "1.IH" [OF True])
    also have "\<dots> = doubleSum buffer offset (filter ?inRange [i..<length buffer]) acc"
      using True by (simp only: cons filter.simps if_True doubleSum_def foldl_Cons)
    finally show ?thesis .
  next
    case False
    then have "filter ?inRange [i..<length buffer] = []"
      by (auto simp: filter_empty_conv)
    with False show ?thesis
      by (subst correlationLoop.simps) (simp add: doubleSum_def)
  qed
qed

lemma correlationLoop_doubleCorr:
  "ddiv (correlationLoop x L 0 0) (real (length x) / 2) = doubleCorr x L"
  by (simp only: correlationLoop_doubleSum doubleCorr_def)

lemma offsetLoop_fold:
  "offsetLoop x offset best =
     fold (pick x) (filter (\<lambda>L. real L < real (length x) / 2) [offset..<length x]) best"
proof (induction x offset best rule: offsetLoop.induct)
  case (1 buffer offset bestCorrelation bestOffset)
  let ?best = "(bestCorrelation, bestOffset)"
  let ?inRange = "\<lambda>L. real L < real (length buffer) / 2"
  let ?c = "ddiv (correlationLoop buffer offset 0 0) (real (length buffer) / 2)"
  show ?case
  proof (cases "?inRange offset")
    case True
    then have "offset < length buffer" by simp
    then have cons: "[offset..<length buffer] = offset # [offset + 1..<length buffer]"
      by (simp add: upt_conv_Cons)
    have pk: "(if ?c > bestCorrelation then (?c, int offset) else ?best) = pick buffer offset ?best"
      by (simp only: correlationLoop_doubleCorr pick_def prod.case)
    have step: "offsetLoop buffer offset ?best =
        offsetLoop buffer (offset + 1) (pick buffer offset ?best)"
      by (subst offsetLoop.simps) (simp only: True if_True Let_def pk)
    have "offsetLoop buffer (offset + 1) (pick buffer offset ?best) =
        fold (pick buffer) (filter ?inRange [offset + 1..<length buffer])
          (pick buffer offset ?best)"
      using "1.IH" [OF True refl] unfolding pk .
    with step True show ?thesis
      by (simp only: cons filter.simps if_True fold_simps)
  next
    case False
    then have "filter ?inRange [offset..<length buffer] = []"
      by (auto simp: filter_empty_conv)
    with False show ?thesis
      by (subst offsetLoop.simps) simp
  qed
qed

lemma fold_pick:
  "case fold (pick x) ls (bc, bo) of
     (bc', bo') \<Rightarrow>
       bc \<le> bc' \<and> (\<forall>L \<in> set ls. doubleCorr x L \<le> bc')
       \<and> (if bc < bc' then \<exists>L. find (\<lambda>L. doubleCorr x L = bc') ls = Some L \<and> bo' = int L
          else bo' = bo)"
proof (induction ls arbitrary: bc bo)
  case Nil
  show ?case by simp
next
  case (Cons L ls)
  show ?case
  proof (cases "doubleCorr x L > bc")
    case True
    with Cons.IH [of "doubleCorr x L" "int L"] show ?thesis
      by (auto simp: pick_def split: prod.splits if_splits)
  next
    case False
    with Cons.IH [of bc bo] show ?thesis
      by (auto simp: pick_def split: prod.splits if_splits)
  qed
qed

lemma findFundamentalFreq_refines:
  "findFundamentalFreq x sampleRate = frequencyHz x sampleRate"
proof -
  let ?c = "doubleCorr x"
  let ?ls = "candidateLags x"
  obtain bc bo where res: "fold (pick x) ?ls (0, -1) = (bc, bo)"
    by (cases "fold (pick x) ?ls (0, -1)")
  have loop: "offsetLoop x 80 (0, -1) = (bc, bo)"
    by (simp only: offsetLoop_fold res [unfolded candidateLags_def])
  from fold_pick [where x = x and ls = "?ls" and bc = 0 and bo = "-1"] res
  have nonneg: "0 \<le> bc" and ub: "\<forall>L \<in> set ?ls. ?c L \<le> bc"
    and pos: "0 < bc \<Longrightarrow> \<exists>L. find (\<lambda>L. ?c L = bc) ?ls = Some L \<and> bo = int L"
    by (auto split: if_splits)
  have thr: "0 < fl 0.1" by (simp add: fl_tenth)
  have code: "findFundamentalFreq x sampleRate =
      (if bc > fl 0.1 then ddiv sampleRate (real_of_int bo) else 0)"
    by (simp add: findFundamentalFreq_def loop)
  show ?thesis
  proof (cases "bc > fl 0.1")
    case True
    with thr have "0 < bc" by simp
    from pos [OF this] obtain L where f: "find (\<lambda>L. ?c L = bc) ?ls = Some L" and bo: "bo = int L"
      by blast
    from f have Lin: "L \<in> set ?ls" and cL: "?c L = bc"
      by (auto simp: find_Some_iff)
    have "find (\<lambda>L. list_all (\<lambda>L'. ?c L' \<le> ?c L) ?ls) ?ls = find (\<lambda>L. ?c L = bc) ?ls"
    proof (rule find_cong [OF refl])
      fix K assume "K \<in> set ?ls"
      with ub Lin cL show "list_all (\<lambda>L'. ?c L' \<le> ?c K) ?ls \<longleftrightarrow> ?c K = bc"
        by (auto simp: list_all_iff intro: antisym)
    qed
    with f have "bestLag x = Some L" by (simp add: bestLag_def)
    with True cL bo code show ?thesis by (simp add: frequencyHz_def)
  next
    case False
    have "frequencyHz x sampleRate = 0"
    proof (cases "bestLag x")
      case None
      then show ?thesis by (simp add: frequencyHz_def)
    next
      case (Some L)
      then have "L \<in> set ?ls" by (auto simp: bestLag_def find_Some_iff)
      with ub False have "\<not> ?c L > fl 0.1" by force
      with Some show ?thesis by (simp add: frequencyHz_def)
    qed
    with False code show ?thesis by simp
  qed
qed

lemma bestLag_exists:
  assumes "candidateLags x \<noteq> []"
  shows "\<exists>L. bestLag x = Some L"
proof -
  let ?S = "doubleCorr x ` set (candidateLags x)"
  have fin: "finite ?S" and ne: "?S \<noteq> {}" using assms by simp_all
  from Max_in [OF fin ne] obtain L where L: "L \<in> set (candidateLags x)" "doubleCorr x L = Max ?S"
    by auto
  have "\<forall>L' \<in> set (candidateLags x). doubleCorr x L' \<le> doubleCorr x L"
    using Max_ge [OF fin] L(2) by simp
  with L(1) have "find (\<lambda>L. list_all (\<lambda>L'. doubleCorr x L' \<le> doubleCorr x L) (candidateLags x))
      (candidateLags x) \<noteq> None"
    by (auto simp: find_None_iff list_all_iff)
  then show ?thesis by (auto simp: bestLag_def)
qed

lemma bestLag_first_max:
  assumes "bestLag x = Some L"
  shows "\<exists>i < length (candidateLags x). candidateLags x ! i = L
           \<and> (\<forall>K \<in> set (candidateLags x). doubleCorr x K \<le> doubleCorr x L)
           \<and> (\<forall>j < i. \<exists>K \<in> set (candidateLags x).
                 doubleCorr x (candidateLags x ! j) < doubleCorr x K)"
  using assms unfolding bestLag_def find_Some_iff list_all_iff
  by (metis not_le)

lemma half_iff: "real k < real n / 2 \<longleftrightarrow> k < (n + 1) div 2"
proof -
  have "real k < real n / 2 \<longleftrightarrow> real k * 2 < real n" by simp
  also have "real k * 2 = real (k * 2)" by simp
  also have "real (k * 2) < real n \<longleftrightarrow> k * 2 < n" by (simp only: of_nat_less_iff)
  also have "\<dots> \<longleftrightarrow> k < (n + 1) div 2" by arith
  finally show ?thesis .
qed

lemma filter_half_upt:
  "filter (\<lambda>k. real k < real n / 2) [a..<n] = [a..<(n + 1) div 2]"
proof (rule sorted_distinct_set_unique)
  show "sorted (filter (\<lambda>k. real k < real n / 2) [a..<n])"
    by (rule sorted_wrt_filter) (rule sorted_upt)
  show "set (filter (\<lambda>k. real k < real n / 2) [a..<n]) = set [a..<(n + 1) div 2]"
    unfolding half_iff set_filter set_upt by auto
  show "distinct (filter (\<lambda>k. real k < real n / 2) [a..<n])"
    by (rule distinct_filter) (rule distinct_upt)
  show "sorted [a..<(n + 1) div 2]" by (rule sorted_upt)
  show "distinct [a..<(n + 1) div 2]" by (rule distinct_upt)
qed

lemma candidateLags_even:
  assumes "even (length x)"
  shows "candidateLags x = [80..<length x div 2]"
  unfolding candidateLags_def filter_half_upt using assms by simp

lemma doubleCorr_even:
  assumes "even (length x)"
  shows "doubleCorr x L = ddiv (doubleSum x L [0..<length x div 2] 0) (real (length x div 2))"
proof -
  have half: "real (length x) / 2 = real (length x div 2)"
    using assms by (simp add: real_of_nat_div)
  have cnt: "(length x + 1) div 2 = length x div 2"
    using assms by simp
  have "doubleCorr x L =
      ddiv (doubleSum x L [0..<(length x + 1) div 2] 0) (real (length x) / 2)"
    unfolding doubleCorr_def filter_half_upt ..
  then show ?thesis
    unfolding cnt half .
qed

lemma length_sparse: "length (sparse n entries) = n"
  by (simp add: sparse_def)

lemma sparse_nth:
  assumes "i < n"
  shows "sparse n entries ! i = (case map_of entries i of Some v \<Rightarrow> v | None \<Rightarrow> 0)"
  using assms by (simp add: sparse_def)

lemma doubleSum_append:
  "doubleSum x L (is @ js) s = doubleSum x L js (doubleSum x L is s)"
  by (simp add: doubleSum_def)

lemma doubleSum_zero_products:
  assumes "fl s = s" and "\<forall>i \<in> set is. x ! i * x ! (i + L) = 0"
  shows "doubleSum x L is s = s"
  using assms(2)
proof (induction "is")
  case Nil
  show ?case by (simp add: doubleSum_def)
next
  case (Cons i "is")
  from Cons.prems have z: "x ! i * x ! (i + L) = 0" by simp
  have "dadd s (dmul (x ! i) (x ! (i + L))) = s"
    by (simp add: dadd_def dmul_def z fl_0 assms(1))
  moreover have "doubleSum x L (i # is) s = doubleSum x L is (dadd s (dmul (x ! i) (x ! (i + L))))"
    by (simp add: doubleSum_def)
  ultimately show ?case using Cons by simp
qed

lemma closed_half_iff: "real k \<le> real n / 2 \<longleftrightarrow> k < n div 2 + 1"
proof -
  have "real k \<le> real n / 2 \<longleftrightarrow> real k * 2 \<le> real n" by simp
  also have "real k * 2 = real (k * 2)" by simp
  also have "real (k * 2) \<le> real n \<longleftrightarrow> k * 2 \<le> n" by (simp only: of_nat_le_iff)
  also have "\<dots> \<longleftrightarrow> k < n div 2 + 1" by arith
  finally show ?thesis .
qed

lemma spec_lags_closed: "spec_lags x = [80..<length x div 2 + 1]"
proof -
  let ?n = "length x"
  have "filter (\<lambda>L. real L \<le> real ?n / 2) [80..<?n + 1] = [80..<?n div 2 + 1]"
  proof (rule sorted_distinct_set_unique)
    show "sorted (filter (\<lambda>L. real L \<le> real ?n / 2) [80..<?n + 1])"
      by (rule sorted_wrt_filter) (rule sorted_upt)
    show "set (filter (\<lambda>L. real L \<le> real ?n / 2) [80..<?n + 1]) = set [80..<?n div 2 + 1]"
      unfolding closed_half_iff set_filter set_upt by auto
    show "distinct (filter (\<lambda>L. real L \<le> real ?n / 2) [80..<?n + 1])"
      by (rule distinct_filter) (rule distinct_upt)
    show "sorted [80..<?n div 2 + 1]" by (rule sorted_upt)
    show "distinct [80..<?n div 2 + 1]" by (rule distinct_upt)
  qed
  then show ?thesis by (simp only: spec_lags_def)
qed

lemma spec_corr_even:
  assumes "even (length x)"
  shows "spec_corr x L = (\<Sum>i<length x div 2. x ! i * x ! (i + L)) / real (length x div 2)"
proof -
  have list_sum: "(\<Sum>i\<leftarrow>[0..<length x div 2]. x ! i * x ! (i + L)) = (\<Sum>i<length x div 2. x ! i * x ! (i + L))"
    by (simp add: interv_sum_list_conv_sum_set_nat atLeast0LessThan)
  have half: "real (length x) / 2 = real (length x div 2)"
    using assms by (simp add: real_of_nat_div)
  have cnt: "(length x + 1) div 2 = length x div 2"
    using assms by simp
  have "spec_corr x L =
      (\<Sum>i\<leftarrow>[0..<(length x + 1) div 2]. x ! i * x ! (i + L)) / (real (length x) / 2)"
    unfolding spec_corr_def filter_half_upt ..
  then show ?thesis
    unfolding cnt half list_sum .
qed

lemma sum_first3:
  fixes g :: "nat \<Rightarrow> real"
  assumes "3 \<le> n" and "\<forall>i. 3 \<le> i \<and> i < n \<longrightarrow> g i = 0"
  shows "(\<Sum>i<n. g i) = g 0 + g 1 + g 2"
proof -
  have split: "{..<n} = {..<3} \<union> {3..<n}" using assms(1) by auto
  have "(\<Sum>i \<in> {..<3} \<union> {3..<n}. g i) = (\<Sum>i<3. g i) + (\<Sum>i = 3..<n. g i)"
    by (rule sum.union_disjoint) auto
  then have "(\<Sum>i<n. g i) = (\<Sum>i<3. g i) + (\<Sum>i = 3..<n. g i)"
    by (simp only: split)
  also have "(\<Sum>i = 3..<n. g i) = 0"
    using assms(2) by (intro sum.neutral) auto
  also have "(\<Sum>i<3. g i) = g 0 + g 1 + g 2"
    by (simp add: eval_nat_numeral)
  finally show ?thesis by simp
qed

subsection \<open>The buffer whose only correlated lag is N / 2\<close>

lemma halfLagBuffer_nth:
  assumes "i < 162"
  shows "halfLagBuffer ! i = (if i = 0 \<or> i = 81 then 3 else 0)"
  using assms by (simp add: halfLagBuffer_def sparse_nth)

lemma halfLagBuffer_spec: "spec_frequencyHz halfLagBuffer 44100 = 4900 / 9"
proof -
  have len: "length halfLagBuffer = 162" by (simp add: halfLagBuffer_def length_sparse)
  have ev: "even (length halfLagBuffer)" by (simp add: len)
  have lags: "spec_lags halfLagBuffer = [80, 81]"
    by (simp add: spec_lags_closed len upt_rec)
  have c80: "spec_corr halfLagBuffer 80 = 0"
  proof -
    have "(\<Sum>i<81. halfLagBuffer ! i * halfLagBuffer ! (i + 80)) = 0"
      by (intro sum.neutral) (auto simp: halfLagBuffer_nth)
    then show ?thesis by (simp add: spec_corr_even [OF ev] len)
  qed
  have c81: "spec_corr halfLagBuffer 81 = 1 / 9"
  proof -
    have "(\<Sum>i<81. halfLagBuffer ! i * halfLagBuffer ! (i + 81))
        = halfLagBuffer ! 0 * halfLagBuffer ! (0 + 81) + halfLagBuffer ! 1 * halfLagBuffer ! (1 + 81)
          + halfLagBuffer ! 2 * halfLagBuffer ! (2 + 81)"
      by (rule sum_first3) (auto simp: halfLagBuffer_nth)
    also have "\<dots> = 9" by (simp add: halfLagBuffer_nth)
    finally show ?thesis by (simp add: spec_corr_even [OF ev] len)
  qed
  show ?thesis
    by (simp add: spec_frequencyHz_def spec_bestLag_def lags c80 c81)
qed

lemma halfLagBuffer_code: "findFundamentalFreq halfLagBuffer 44100 = 0"
proof -
  have len: "length halfLagBuffer = 162" by (simp add: halfLagBuffer_def length_sparse)
  have ev: "even (length halfLagBuffer)" by (simp add: len)
  have lags: "candidateLags halfLagBuffer = [80]"
    by (simp add: candidateLags_even [OF ev] len upt_rec)
  have "doubleSum halfLagBuffer 80 [0..<81] 0 = 0"
    by (rule doubleSum_zero_products) (auto simp: fl_0 halfLagBuffer_nth)
  then have c80: "doubleCorr halfLagBuffer 80 = 0"
    by (simp add: doubleCorr_even [OF ev] len ddiv_def fl_0)
  show ?thesis
    by (simp add: findFundamentalFreq_refines frequencyHz_def bestLag_def lags c80 fl_tenth)
qed

subsection \<open>The buffer whose rounded sum cancels\<close>

lemma cancellingBuffer_nth:
  assumes "i < 162"
  shows "cancellingBuffer ! i =
    (if i = 0 \<or> i = 2 \<or> i = 80 then 2 ^ 30 else if i = 1 \<or> i = 81 then 3
     else if i = 82 then - (2 ^ 30) else 0)"
  using assms by (simp add: cancellingBuffer_def sparse_nth)

lemma cancellingBuffer_spec: "spec_frequencyHz cancellingBuffer 44100 = 2205 / 4"
proof -
  have len: "length cancellingBuffer = 162" by (simp add: cancellingBuffer_def length_sparse)
  have ev: "even (length cancellingBuffer)" by (simp add: len)
  have lags: "spec_lags cancellingBuffer = [80, 81]"
    by (simp add: spec_lags_closed len upt_rec)
  have c80: "spec_corr cancellingBuffer 80 = 1 / 9"
  proof -
    have "(\<Sum>i<81. cancellingBuffer ! i * cancellingBuffer ! (i + 80))
        = cancellingBuffer ! 0 * cancellingBuffer ! (0 + 80)
          + cancellingBuffer ! 1 * cancellingBuffer ! (1 + 80)
          + cancellingBuffer ! 2 * cancellingBuffer ! (2 + 80)"
      by (rule sum_first3) (auto simp: cancellingBuffer_nth)
    also have "\<dots> = 9" by (simp add: cancellingBuffer_nth)
    finally show ?thesis by (simp add: spec_corr_even [OF ev] len)
  qed
  have c81: "spec_corr cancellingBuffer 81 = 0"
  proof -
    have "(\<Sum>i<81. cancellingBuffer ! i * cancellingBuffer ! (i + 81))
        = cancellingBuffer ! 0 * cancellingBuffer ! (0 + 81)
          + cancellingBuffer ! 1 * cancellingBuffer ! (1 + 81)
          + cancellingBuffer ! 2 * cancellingBuffer ! (2 + 81)"
      by (rule sum_first3) (auto simp: cancellingBuffer_nth)
    also have "\<dots> = 0" by (simp add: cancellingBuffer_nth)
    finally show ?thesis by (simp add: spec_corr_even [OF ev] len)
  qed
  show ?thesis
    by (simp add: spec_frequencyHz_def spec_bestLag_def lags c80 c81)
qed

lemma cancellingBuffer_code: "findFundamentalFreq cancellingBuffer 44100 = 0"
proof -
  have len: "length cancellingBuffer = 162" by (simp add: cancellingBuffer_def length_sparse)
  have ev: "even (length cancellingBuffer)" by (simp add: len)
  have lags: "candidateLags cancellingBuffer = [80]"
    by (simp add: candidateLags_even [OF ev] len upt_rec)
  have p0: "cancellingBuffer ! 0 * cancellingBuffer ! (0 + 80) = 2 ^ 60"
    and p1: "cancellingBuffer ! 1 * cancellingBuffer ! (1 + 80) = 9"
    and p2: "cancellingBuffer ! 2 * cancellingBuffer ! (2 + 80) = - (2 ^ 60)"
    by (simp_all add: cancellingBuffer_nth)
  have s1: "dadd 0 (dmul (cancellingBuffer ! 0) (cancellingBuffer ! (0 + 80))) = 2 ^ 60"
    unfolding dadd_def dmul_def p0 fl_2p60 by (simp only: add_0 fl_2p60)
  have s2: "dadd (2 ^ 60) (dmul (cancellingBuffer ! 1) (cancellingBuffer ! (1 + 80))) = 2 ^ 60"
    unfolding dadd_def dmul_def p1 fl_9 by (rule fl_2p60_9)
  have s3: "dadd (2 ^ 60) (dmul (cancellingBuffer ! 2) (cancellingBuffer ! (2 + 80))) = 0"
    unfolding dadd_def dmul_def p2 fl_neg_2p60 by (simp add: fl_0)
  have head: "doubleSum cancellingBuffer 80 [0, 1, 2] 0 = 0"
    unfolding doubleSum_def foldl_Cons foldl_Nil s1 s2 s3 ..
  have tail: "doubleSum cancellingBuffer 80 [3..<81] 0 = 0"
    by (rule doubleSum_zero_products) (auto simp: fl_0 cancellingBuffer_nth)
  have "[0..<81] = [0, 1, 2] @ [3..<81]"
    by (simp add: upt_rec)
  then have "doubleSum cancellingBuffer 80 [0..<81] 0 = 0"
    by (simp only: doubleSum_append head tail)
  then have c80: "doubleCorr cancellingBuffer 80 = 0"
    by (simp add: doubleCorr_even [OF ev] len ddiv_def fl_0)
  show ?thesis
    by (simp add: findFundamentalFreq_refines frequencyHz_def bestLag_def lags c80 fl_tenth)
qed


subsection \<open>Two buffers with 48 candidate lags\<close>

lemma fl_44100_81: "fl (44100 / 81) = 4788983978757689 / 8796093022208"
proof -
  have "fl (44100 / 81) =
      real_of_int (roundHalfEven (44100 / 81 / 2 powr real_of_int (9 - 52)))
        * 2 powr real_of_int (9 - 52)"
    by (rule fl_eval) (simp_all add: powr_neg_numeral)
  also have "roundHalfEven (44100 / 81 / 2 powr real_of_int (9 - 52)) = 4788983978757689"
    by (rule roundHalfEven_up) (simp_all add: powr_neg_numeral)
  finally show ?thesis by (simp add: powr_neg_numeral)
qed

lemma pitchedBuffer_nth:
  assumes "i < 256"
  shows "pitchedBuffer ! i = (if i = 0 \<or> i = 81 then 16 else 0)"
  using assms by (simp add: pitchedBuffer_def sparse_nth)

lemma pitchedBuffer_corr:
  assumes "80 \<le> L" and "L < 128"
  shows "doubleCorr pitchedBuffer L = (if L = 81 then 2 else 0)"
proof -
  have len: "length pitchedBuffer = 256" by (simp add: pitchedBuffer_def length_sparse)
  have ev: "even (length pitchedBuffer)" by (simp add: len)
  have corr: "doubleCorr pitchedBuffer L = ddiv (doubleSum pitchedBuffer L [0..<128] 0) 128"
    by (simp add: doubleCorr_even [OF ev] len)
  show ?thesis
  proof (cases "L = 81")
    case True
    have p0: "pitchedBuffer ! 0 * pitchedBuffer ! (0 + 81) = 256"
      by (simp add: pitchedBuffer_nth)
    have s1: "dadd 0 (dmul (pitchedBuffer ! 0) (pitchedBuffer ! (0 + 81))) = 256"
      unfolding dadd_def dmul_def p0 fl_256 by (simp only: add_0 fl_256)
    have head: "doubleSum pitchedBuffer 81 [0] 0 = 256"
      unfolding doubleSum_def foldl_Cons foldl_Nil s1 ..
    have tail: "doubleSum pitchedBuffer 81 [1..<128] 256 = 256"
      by (rule doubleSum_zero_products) (auto simp: fl_256 pitchedBuffer_nth)
    have "[0..<128] = [0] @ [1..<128]" by (simp add: upt_rec)
    then have "doubleSum pitchedBuffer 81 [0..<128] 0 = 256"
      by (simp only: doubleSum_append head tail)
    with True corr show ?thesis by (simp add: ddiv_def fl_2)
  next
    case False
    have "doubleSum pitchedBuffer L [0..<128] 0 = 0"
      using assms False by (intro doubleSum_zero_products) (auto simp: fl_0 pitchedBuffer_nth)
    with False corr show ?thesis by (simp add: ddiv_def fl_0)
  qed
qed

lemma upt_80_128: "[80..<128] = 80 # 81 # [82..<128]"
proof -
  have "[80..<128] = 80 # [Suc 80..<128]" by (rule upt_conv_Cons) simp
  also have "[Suc 80..<128] = Suc 80 # [Suc (Suc 80)..<128]" by (rule upt_conv_Cons) simp
  also have "Suc 80 = 81" by simp
  also have "Suc 81 = 82" by simp
  finally show ?thesis .
qed

lemma candidateLags_256:
  assumes "length x = 256"
  shows "candidateLags x = 80 # 81 # [82..<128]"
proof -
  have "even (length x)" by (simp add: assms)
  then have "candidateLags x = [80..<length x div 2]" by (rule candidateLags_even)
  also have "length x div 2 = 128" by (simp add: assms)
  finally show ?thesis by (simp only: upt_80_128)
qed

lemma candidateLags_256_bounds:
  assumes "length x = 256" and "L \<in> set (candidateLags x)"
  shows "80 \<le> L \<and> L < 128"
proof -
  from assms(2) have "L = 80 \<or> L = 81 \<or> L \<in> {82..<128}"
    by (simp only: candidateLags_256 [OF assms(1)] set_simps set_upt insert_iff)
  then show ?thesis by auto
qed

lemma pitchedBuffer_frequencyHz:
  "frequencyHz pitchedBuffer 44100 = 4788983978757689 / 8796093022208"
proof -
  have len: "length pitchedBuffer = 256" by (simp add: pitchedBuffer_def length_sparse)
  note lags = candidateLags_256 [OF len]
  have c: "doubleCorr pitchedBuffer L = (if L = 81 then 2 else 0)"
    if "L \<in> set (candidateLags pitchedBuffer)" for L
    using candidateLags_256_bounds [OF len that] by (intro pitchedBuffer_corr) simp_all
  have in80: "80 \<in> set (candidateLags pitchedBuffer)"
    and in81: "81 \<in> set (candidateLags pitchedBuffer)"
    by (simp_all only: lags set_simps insert_iff simp_thms)
  have c80: "doubleCorr pitchedBuffer 80 = 0" using c [OF in80] by simp
  have c81: "doubleCorr pitchedBuffer 81 = 2" using c [OF in81] by simp
  have not80: "\<not> list_all (\<lambda>L'. doubleCorr pitchedBuffer L' \<le> doubleCorr pitchedBuffer 80)
      (candidateLags pitchedBuffer)"
    unfolding list_all_iff using in81 c80 c81 by force
  have at81: "list_all (\<lambda>L'. doubleCorr pitchedBuffer L' \<le> doubleCorr pitchedBuffer 81)
      (candidateLags pitchedBuffer)"
    unfolding list_all_iff
  proof
    fix L' assume "L' \<in> set (candidateLags pitchedBuffer)"
    from c [OF this] c81 show "doubleCorr pitchedBuffer L' \<le> doubleCorr pitchedBuffer 81"
      by simp
  qed
  let ?P = "\<lambda>L. list_all (\<lambda>L'. doubleCorr pitchedBuffer L' \<le> doubleCorr pitchedBuffer L)
      (candidateLags pitchedBuffer)"
  have "find ?P (80 # 81 # [82..<128]) = Some 81"
    using not80 at81 by (simp only: find.simps if_False if_True)
  then have best: "bestLag pitchedBuffer = Some 81"
    unfolding bestLag_def by (simp only: lags)
  have "frequencyHz pitchedBuffer 44100 =
      (if doubleCorr pitchedBuffer 81 > fl 0.1 then ddiv 44100 (real 81) else 0)"
    by (simp only: frequencyHz_def best option.case)
  also have "\<dots> = fl (44100 / 81)"
    by (simp add: c81 fl_tenth ddiv_def)
  finally show ?thesis by (simp only: fl_44100_81)
qed

lemma faintBuffer_nth:
  assumes "i < 256"
  shows "faintBuffer ! i = (if i = 0 \<or> i = 80 then 1 else 0)"
  using assms by (simp add: faintBuffer_def sparse_nth)

lemma faintBuffer_corr:
  assumes "80 \<le> L" and "L < 128"
  shows "doubleCorr faintBuffer L = (if L = 80 then 1 / 128 else 0)"
proof -
  have len: "length faintBuffer = 256" by (simp add: faintBuffer_def length_sparse)
  have ev: "even (length faintBuffer)" by (simp add: len)
  have corr: "doubleCorr faintBuffer L = ddiv (doubleSum faintBuffer L [0..<128] 0) 128"
    by (simp add: doubleCorr_even [OF ev] len)
  show ?thesis
  proof (cases "L = 80")
    case True
    have p0: "faintBuffer ! 0 * faintBuffer ! (0 + 80) = 1"
      by (simp add: faintBuffer_nth)
    have s1: "dadd 0 (dmul (faintBuffer ! 0) (faintBuffer ! (0 + 80))) = 1"
      unfolding dadd_def dmul_def p0 fl_1 by (simp only: add_0 fl_1)
    have head: "doubleSum faintBuffer 80 [0] 0 = 1"
      unfolding doubleSum_def foldl_Cons foldl_Nil s1 ..
    have tail: "doubleSum faintBuffer 80 [1..<128] 1 = 1"
      by (rule doubleSum_zero_products) (auto simp: fl_1 faintBuffer_nth)
    have "[0..<128] = [0] @ [1..<128]" by (simp add: upt_rec)
    then have "doubleSum faintBuffer 80 [0..<128] 0 = 1"
      by (simp only: doubleSum_append head tail)
    with True corr show ?thesis by (simp add: ddiv_def fl_128th)
  next
    case False
    have "doubleSum faintBuffer L [0..<128] 0 = 0"
      using assms False by (intro doubleSum_zero_products) (auto simp: fl_0 faintBuffer_nth)
    with False corr show ?thesis by (simp add: ddiv_def fl_0)
  qed
qed

lemma faintBuffer_below_threshold:
  "\<forall>L \<in> set (candidateLags faintBuffer). doubleCorr faintBuffer L \<le> fl 0.1"
proof
  fix L assume L: "L \<in> set (candidateLags faintBuffer)"
  have len: "length faintBuffer = 256" by (simp add: faintBuffer_def length_sparse)
  from candidateLags_256_bounds [OF len L] have "80 \<le> L" "L < 128" by simp_all
  from faintBuffer_corr [OF this] show "doubleCorr faintBuffer L \<le> fl 0.1"
    by (simp add: fl_tenth)
qed

text \<open>
  Claim C3, with the code's lag range and arithmetic. For every buffer \<open>x\<close> of finite
  samples, of length \<open>N\<close>, and every sample rate \<open>R\<close>, \<open>findFundamentalFreq\<close> computes, for
  each candidate lag \<open>L\<close> with \<open>80 \<le> L < N / 2\<close> (so \<open>N / 2\<close> itself is not a candidate), the
  normalized correlation \<open>(\<Sum>i<M. x[i] * x[i + L]) / M\<close> with \<open>M = N / 2\<close> in double
  arithmetic, each product, each partial sum (in index order) and the quotient rounded;
  it selects the
  first lag whose computed correlation is maximal, returns \<open>R / bestLag\<close> (rounded) when
  that correlation exceeds the double \<open>0.1\<close>, and returns 0 otherwise. In particular a
  buffer none of whose computed candidate correlations exceeds \<open>0.1\<close> yields 0. Whenever
  there is a candidate lag the selection is defined, and for even \<open>N\<close> the candidates are
  the lags from 80 to \<open>N / 2 - 1\<close> and the sum runs over the indices below \<open>N / 2\<close>.
\<close>

theorem findFundamentalFreq_autocorrelation:
  "findFundamentalFreq x sampleRate = frequencyHz x sampleRate
 \<and> ((\<forall>L \<in> set (candidateLags x). doubleCorr x L \<le> fl 0.1)
       \<longrightarrow> findFundamentalFreq x sampleRate = 0)
 \<and> (candidateLags x \<noteq> [] \<longrightarrow> (\<exists>L. bestLag x = Some L))
 \<and> (even (length x) \<longrightarrow>
      candidateLags x = [80..<length x div 2]
    \<and> (\<forall>L. doubleCorr x L =
             ddiv (doubleSum x L [0..<length x div 2] 0) (real (length x div 2))))"
proof -
  have quiet: "frequencyHz x sampleRate = 0"
    if low: "\<forall>L \<in> set (candidateLags x). doubleCorr x L \<le> fl 0.1"
  proof (cases "bestLag x")
    case None
    then show ?thesis by (simp add: frequencyHz_def)
  next
    case (Some L)
    then have "L \<in> set (candidateLags x)" by (auto simp: bestLag_def find_Some_iff)
    with low have "\<not> doubleCorr x L > fl 0.1" by force
    with Some show ?thesis by (simp add: frequencyHz_def)
  qed
  show ?thesis
    using quiet bestLag_exists [of x] candidateLags_even [of x] doubleCorr_even [of x]
    by (simp add: findFundamentalFreq_refines)
qed

theorem findFundamentalFreq_autocorrelation_witness:
  "findFundamentalFreq pitchedBuffer 44100 = 4788983978757689 / 8796093022208
 \<and> findFundamentalFreq faintBuffer 44100 = 0"
proof -
  from findFundamentalFreq_autocorrelation [of pitchedBuffer 44100]
  have "findFundamentalFreq pitchedBuffer 44100 = frequencyHz pitchedBuffer 44100"
    by (rule conjunct1)
  then have tone: "findFundamentalFreq pitchedBuffer 44100 = 4788983978757689 / 8796093022208"
    by (simp only: pitchedBuffer_frequencyHz)
  from findFundamentalFreq_autocorrelation [of faintBuffer 44100] faintBuffer_below_threshold
  have "findFundamentalFreq faintBuffer 44100 = 0"
    by blast
  with tone show ?thesis by (rule conjI)
qed

text \<open>
  Claim C3 as stated fails in both respects. In \<open>halfLagBuffer\<close> (162 samples, a 3 at
  indices 0 and 81) the only correlated lag is \<open>N / 2 = 81\<close>, with correlation \<open>1 / 9\<close>: over the
  closed range the claim gives \<open>44100 / 81\<close>, the code never tries lag 81 and returns 0.
  In \<open>cancellingBuffer\<close> the exact correlation at lag 80 is \<open>1 / 9\<close>, so the claim gives
  \<open>44100 / 80\<close>; the code's running sum rounds \<open>2^60 + 9\<close> to \<open>2^60\<close>, then cancels to 0, and
  the code returns 0.
\<close>

theorem findFundamentalFreq_counterexample:
  "findFundamentalFreq halfLagBuffer 44100 = 0
 \<and> spec_frequencyHz halfLagBuffer 44100 = 4900 / 9
 \<and> findFundamentalFreq cancellingBuffer 44100 = 0
 \<and> spec_frequencyHz cancellingBuffer 44100 = 2205 / 4"
  by (simp only: halfLagBuffer_code halfLagBuffer_spec cancellingBuffer_code
      cancellingBuffer_spec simp_thms)

section \<open>Properties of session start\<close>

lemma parseLoop_length:
  assumes "\<forall>line \<in> set ls. matchTimestamp line \<noteq> None"
  shows "length (parseLoop ls) = length ls"
  using assms
proof (induction ls)
  case Nil
  show ?case by simp
next
  case (Cons line rest)
  from Cons.prems obtain r where "matchTimestamp line = Some r" by auto
  then obtain mn sec ms tx where "matchLine line = Some (mn, sec, ms, tx)"
    by (cases r) (auto simp: matchLine_def)
  with Cons show ?case by (simp add: Let_def)
qed

lemma fixLastLine_length: "length (fixLastLine timedLyrics) = length timedLyrics"
  by (simp add: fixLastLine_def Let_def)

lemma parseLRC_length:
  "length (parseLRC lrcText) =
     length (filter (\<lambda>line. matchTimestamp line \<noteq> None) (splitNewline lrcText))"
  by (simp add: parseLRC_def Let_def fixLastLine_length parseLoop_length)

lemma parseLRC_empty_iff:
  "parseLRC lrcText = [] \<longleftrightarrow> (\<forall>line \<in> set (splitNewline lrcText). matchTimestamp line = None)"
proof -
  have "parseLRC lrcText = [] \<longleftrightarrow> length (parseLRC lrcText) = 0" by simp
  also have "\<dots> \<longleftrightarrow> filter (\<lambda>line. matchTimestamp line \<noteq> None) (splitNewline lrcText) = []"
    by (simp only: parseLRC_length length_0_conv)
  also have "\<dots> \<longleftrightarrow> (\<forall>line \<in> set (splitNewline lrcText). matchTimestamp line = None)"
    by (simp only: filter_empty_conv not_not)
  finally show ?thesis .
qed

lemma handleStartKaraoke_empty:
  assumes "parseLRC lrcText = []"
  shows "handleStartKaraoke (Resolved lrcText) details st =
           st\<lparr>appState := HOME, error := Some NoSyncedLyrics\<rparr>"
  using assms by (simp add: handleStartKaraoke_def Let_def)

lemma handleStartKaraoke_karaoke:
  assumes "appState (handleStartKaraoke outcome details st) = KARAOKE"
  shows "lyrics (handleStartKaraoke outcome details st) \<noteq> []"
  using assms
  by (cases outcome) (auto simp: handleStartKaraoke_def Let_def split: if_splits)

lemma renderContent_karaoke:
  assumes "renderContent st = KaraokeScreen d ls"
  shows "ls \<noteq> []"
  using assms
  by (auto simp: renderContent_def split: AppState.splits option.splits if_splits)


text \<open>
  Claim C9. \<open>parseLRC\<close> yields no line exactly when no line of the text starts with a
  well-formed timestamp. In that case \<open>handleStartKaraoke\<close> ends in the \<open>HOME\<close> state with
  the error set and the lyrics, song details and history untouched. Whenever
  \<open>handleStartKaraoke\<close> ends in the \<open>KARAOKE\<close> state the lyrics it stored are non-empty,
  and \<open>renderContent\<close> mounts the karaoke screen only with a non-empty list of lines.
\<close>

theorem empty_lyrics_fail_start:
  "(parseLRC lrcText = [] \<longleftrightarrow> (\<forall>line \<in> set (splitNewline lrcText). matchTimestamp line = None))
 \<and> (parseLRC lrcText = [] \<longrightarrow>
      handleStartKaraoke (Resolved lrcText) details st =
        st\<lparr>appState := HOME, error := Some NoSyncedLyrics\<rparr>)
 \<and> (appState (handleStartKaraoke outcome details st) = KARAOKE \<longrightarrow>
      lyrics (handleStartKaraoke outcome details st) \<noteq> [])
 \<and> (\<forall>d ls. renderContent st = KaraokeScreen d ls \<longrightarrow> ls \<noteq> [])"
  using parseLRC_empty_iff [of lrcText] handleStartKaraoke_empty [of lrcText details st]
    handleStartKaraoke_karaoke [of outcome details st] renderContent_karaoke [of st]
  by blast

theorem empty_lyrics_fail_start_witness:
  "parseLRC ''la la la'' = []
 \<and> appState (handleStartKaraoke (Resolved ''la la la'') someSong homeApp) = HOME
 \<and> error (handleStartKaraoke (Resolved ''la la la'') someSong homeApp) = Some NoSyncedLyrics
 \<and> lyrics (handleStartKaraoke (Resolved ''la la la'') someSong homeApp) = []"
proof -
  have none: "\<forall>line \<in> set (splitNewline ''la la la''). matchTimestamp line = None"
    by simp
  note t = empty_lyrics_fail_start [of "''la la la''" someSong homeApp "Resolved ''la la la''"]
  from t none have empty: "parseLRC ''la la la'' = []" by blast
  with t have "handleStartKaraoke (Resolved ''la la la'') someSong homeApp =
      homeApp\<lparr>appState := HOME, error := Some NoSyncedLyrics\<rparr>"
    by blast
  with empty show ?thesis by (simp add: homeApp_def)
qed

end
